theory Spec2Isabelle
  imports Complex_Main
begin

section \<open>Data model of \<open>src/App.tsx\<close>\<close>

text \<open>
  \<open>type Player = 'X' | 'O' | null\<close>: a cell of the board is a mark or \<open>null\<close>.
  The two marks are a datatype of their own and \<open>null\<close> is \<open>None\<close>.
\<close>

datatype mark = PlayerX | PlayerO

type_synonym Player = "mark option"

type_synonym board = "Player list"

datatype GameMode = pvp | pvc

datatype Difficulty = easy | medium | hard

text \<open>
  The field \<open>winner: Player | 'tie' | null\<close>: \<open>None\<close> is \<open>null\<close> (no result yet),
  \<open>Some (Won m)\<close> is the mark \<open>m\<close> and \<open>Some tie\<close> is the string \<open>'tie'\<close>.
\<close>

datatype result = Won mark | tie

text \<open>
  A winning combination is a three-element array that the code only ever destructures as
  \<open>[a, b, c]\<close>; it is a triple here.
\<close>

type_synonym line = "nat \<times> nat \<times> nat"

definition winningCombinations :: "line list" where
  "winningCombinations =
     [(0, 1, 2), (3, 4, 5), (6, 7, 8),
      (0, 3, 6), (1, 4, 7), (2, 5, 8),
      (0, 4, 8), (2, 4, 6)]"

subsection \<open>JavaScript numbers with the two infinities\<close>

text \<open>
  \<open>minimax\<close> computes with \<open>-Infinity\<close>, \<open>Infinity\<close> and small integers. The numbers
  are the integers with a least and a greatest element added, ordered as JavaScript
  orders them, so that \<open>Math.max\<close> and \<open>Math.min\<close> are \<open>max\<close> and \<open>min\<close>.
\<close>

datatype jsnum = NegInf | Fin int | PosInf

instantiation jsnum :: linorder
begin

fun less_eq_jsnum :: "jsnum \<Rightarrow> jsnum \<Rightarrow> bool" where
  "less_eq_jsnum NegInf _ = True"
| "less_eq_jsnum (Fin a) NegInf = False"
| "less_eq_jsnum (Fin a) (Fin b) = (a \<le> b)"
| "less_eq_jsnum (Fin a) PosInf = True"
| "less_eq_jsnum PosInf PosInf = True"
| "less_eq_jsnum PosInf _ = False"

fun less_jsnum :: "jsnum \<Rightarrow> jsnum \<Rightarrow> bool" where
  "less_jsnum _ NegInf = False"
| "less_jsnum NegInf _ = True"
| "less_jsnum (Fin a) (Fin b) = (a < b)"
| "less_jsnum (Fin a) PosInf = True"
| "less_jsnum PosInf _ = False"

instance
proof
  fix x y z :: jsnum
  show "(x < y) = (x \<le> y \<and> \<not> y \<le> x)"
    by (cases x; cases y) auto
  show "x \<le> x"
    by (cases x) auto
  show "x \<le> y \<Longrightarrow> y \<le> z \<Longrightarrow> x \<le> z"
    by (cases x; cases y; cases z) auto
  show "x \<le> y \<Longrightarrow> y \<le> x \<Longrightarrow> x = y"
    by (cases x; cases y) auto
  show "x \<le> y \<or> y \<le> x"
    by (cases x; cases y) auto
qed

end

section \<open>The outcome evaluator\<close>

text \<open>
  The \<open>for\<close> loop of \<open>checkWinner\<close> over the table: the first combination whose three
  cells hold the same mark ends the loop. \<open>board[a] && ...\<close> is the test that the cell
  is not \<open>null\<close>. Boards have nine cells, so every index of the table is in range.
\<close>

fun checkLines :: "board \<Rightarrow> line list \<Rightarrow> (mark \<times> line) option" where
  "checkLines board [] = None"
| "checkLines board ((a, b, c) # rest) =
     (case board ! a of
        None \<Rightarrow> checkLines board rest
      | Some m \<Rightarrow>
          if board ! b = Some m \<and> board ! c = Some m then Some (m, (a, b, c))
          else checkLines board rest)"

definition checkWinner :: "board \<Rightarrow> result option \<times> line option" where
  "checkWinner board =
     (case checkLines board winningCombinations of
        Some (m, combination) \<Rightarrow> (Some (Won m), Some combination)
      | None \<Rightarrow>
          if list_all (\<lambda>cell. cell \<noteq> None) board then (Some tie, None)
          else (None, None))"

text \<open>
  \<open>board.map((cell, index) => cell === null ? index : -1).filter(index => index !== -1)\<close>:
  the indices of the empty cells, in ascending order.
\<close>

definition getAvailableMoves :: "board \<Rightarrow> nat list" where
  "getAvailableMoves board =
     map nat (filter (\<lambda>index. index \<noteq> -1)
       (map (\<lambda>(cell, index). if cell = None then int index else -1)
         (zip board [0 ..< length board])))"

section \<open>The search\<close>

text \<open>
  \<open>minimax\<close> writes into the array it is given and calls itself on that same array, so
  the model passes the board along and returns it with the value. The recursion is
  on a fuel counter that one level of the game tree uses up: \<open>None\<close> is "out of fuel",
  and the theorems below show that as much fuel as the board has empty cells is
  always enough. A finished board needs no fuel.
\<close>

function (sequential) minimax :: "nat \<Rightarrow> board \<Rightarrow> int \<Rightarrow> bool \<Rightarrow> jsnum \<Rightarrow> jsnum \<Rightarrow> (jsnum \<times> board) option"
and maxLoop :: "nat \<Rightarrow> nat list \<Rightarrow> board \<Rightarrow> int \<Rightarrow> jsnum \<Rightarrow> jsnum \<Rightarrow> jsnum \<Rightarrow> (jsnum \<times> board) option"
and minLoop :: "nat \<Rightarrow> nat list \<Rightarrow> board \<Rightarrow> int \<Rightarrow> jsnum \<Rightarrow> jsnum \<Rightarrow> jsnum \<Rightarrow> (jsnum \<times> board) option"
where
  "minimax fuel board depth isMaximizing alpha beta =
     (case fst (checkWinner board) of
        Some (Won PlayerO) \<Rightarrow> Some (Fin (10 - depth), board)
      | Some (Won PlayerX) \<Rightarrow> Some (Fin (depth - 10), board)
      | Some tie \<Rightarrow> Some (Fin 0, board)
      | None \<Rightarrow>
          if isMaximizing
          then maxLoop fuel (getAvailableMoves board) board depth alpha beta NegInf
          else minLoop fuel (getAvailableMoves board) board depth alpha beta PosInf)"
| "maxLoop fuel [] board depth alpha beta maxEval = Some (maxEval, board)"
| "maxLoop 0 (move # moves) board depth alpha beta maxEval = None"
| "maxLoop (Suc fuel) (move # moves) board depth alpha beta maxEval =
     (case minimax fuel (board[move := Some PlayerO]) (depth + 1) False alpha beta of
        None \<Rightarrow> None
      | Some (evaluation, board1) \<Rightarrow>
          let board2 = board1[move := None];
              maxEval2 = max maxEval evaluation;
              alpha2 = max alpha evaluation
          in if beta \<le> alpha2 then Some (maxEval2, board2)
             else maxLoop (Suc fuel) moves board2 depth alpha2 beta maxEval2)"
| "minLoop fuel [] board depth alpha beta minEval = Some (minEval, board)"
| "minLoop 0 (move # moves) board depth alpha beta minEval = None"
| "minLoop (Suc fuel) (move # moves) board depth alpha beta minEval =
     (case minimax fuel (board[move := Some PlayerX]) (depth + 1) True alpha beta of
        None \<Rightarrow> None
      | Some (evaluation, board1) \<Rightarrow>
          let board2 = board1[move := None];
              minEval2 = min minEval evaluation;
              beta2 = min beta evaluation
          in if beta2 \<le> alpha then Some (minEval2, board2)
             else minLoop (Suc fuel) moves board2 depth alpha beta2 minEval2)"
  by pat_completeness auto

termination
  by (relation "inv_image (less_than <*lex*> less_than)
        (\<lambda>x. case x of
           Inl (fuel, _) \<Rightarrow> (2 * fuel + 1, 0)
         | Inr (Inl (fuel, moves, _)) \<Rightarrow> (2 * fuel, length moves)
         | Inr (Inr (fuel, moves, _)) \<Rightarrow> (2 * fuel, length moves))")
     auto

declare minimax.simps [simp del]

section \<open>Move selection\<close>

text \<open>
  \<open>availableMoves[i]\<close>: reading an array outside its bounds gives \<open>undefined\<close>, which is
  \<open>None\<close> here. \<open>getBestMove\<close> therefore returns a cell index or \<open>undefined\<close>.
\<close>

definition arrayAt :: "nat list \<Rightarrow> int \<Rightarrow> nat option" where
  "arrayAt xs i = (if 0 \<le> i \<and> i < int (length xs) then Some (xs ! nat i) else None)"

text \<open>
  The loop of the optimal-play path: every candidate is written into the board, scored by
  \<open>minimax(board, 0, false)\<close> with the default bounds \<open>-Infinity\<close> and \<open>Infinity\<close>, and
  taken out again; a candidate replaces the best one only on \<open>moveValue > bestValue\<close>.
\<close>

fun bestLoop :: "nat \<Rightarrow> nat list \<Rightarrow> board \<Rightarrow> nat option \<Rightarrow> jsnum \<Rightarrow> (nat option \<times> board) option" where
  "bestLoop fuel [] board bestMove bestValue = Some (bestMove, board)"
| "bestLoop fuel (move # moves) board bestMove bestValue =
     (case minimax fuel (board[move := Some PlayerO]) 0 False NegInf PosInf of
        None \<Rightarrow> None
      | Some (moveValue, board1) \<Rightarrow>
          let board2 = board1[move := None]
          in if moveValue > bestValue then bestLoop fuel moves board2 (Some move) moveValue
             else bestLoop fuel moves board2 bestMove bestValue)"

text \<open>
  \<open>Math.random()\<close> is called at most twice: \<open>r1\<close> is the first draw (compared with the
  threshold of the difficulty) and \<open>r2\<close> the second (scaled to an index). Both are
  arguments of the model, numbers in the interval from 0 to 1, so that the dependence of
  the result on the random source is visible in the type. The draws are real numbers
  here and the thresholds are 7/10 and 3/10: the rounding of floating-point numbers is
  left out, and it plays no part at Hard difficulty, where nothing is drawn.
\<close>

definition getBestMove :: "nat \<Rightarrow> board \<Rightarrow> Difficulty \<Rightarrow> real \<Rightarrow> real \<Rightarrow> (nat option \<times> board) option" where
  "getBestMove fuel board difficulty r1 r2 =
     (let availableMoves = getAvailableMoves board
      in if difficulty = easy \<and> r1 < 7 / 10
         then Some (arrayAt availableMoves \<lfloor>r2 * real (length availableMoves)\<rfloor>, board)
         else if difficulty = medium \<and> r1 < 3 / 10
         then Some (arrayAt availableMoves \<lfloor>r2 * real (length availableMoves)\<rfloor>, board)
         else bestLoop fuel availableMoves board (arrayAt availableMoves 0) NegInf)"

section \<open>The game state and \<open>makeMove\<close>\<close>

record Scores =
  score_X :: int
  score_O :: int
  score_ties :: int

record GameState =
  board :: board
  currentPlayer :: Player
  winner :: "result option"
  winningLine :: "line option"
  gameMode :: GameMode
  difficulty :: Difficulty
  scores :: Scores

definition initialState :: GameState where
  "initialState =
     \<lparr>board = replicate 9 None, currentPlayer = Some PlayerX, winner = None,
      winningLine = None, gameMode = pvp, difficulty = medium,
      scores = \<lparr>score_X = 0, score_O = 0, score_ties = 0\<rparr>\<rparr>"

text \<open>
  \<open>makeMove\<close> returns at once when the cell is taken or the game is over. Otherwise it
  copies the board, writes the current player's mark, evaluates the new board and stores
  the new state, adding one to the score of the winner (or to the ties). The state that
  \<open>setGameState\<close> updates is the state the callback has read, since the events are
  handled one after the other. The toast shown at the end of a game is display only and
  not part of the state. An index beyond the board would make JavaScript grow the array
  with holes, which a list of cells cannot hold: the model answers \<open>None\<close> there (no
  caller passes such an index: the grid has a button for each of the nine cells, and the
  computer plays an index taken from \<open>getAvailableMoves\<close>).
\<close>

definition bumpScore :: "result \<Rightarrow> Scores \<Rightarrow> Scores" where
  "bumpScore w sc =
     (case w of
        tie \<Rightarrow> sc\<lparr>score_ties := score_ties sc + 1\<rparr>
      | Won PlayerX \<Rightarrow> sc\<lparr>score_X := score_X sc + 1\<rparr>
      | Won PlayerO \<Rightarrow> sc\<lparr>score_O := score_O sc + 1\<rparr>)"

definition makeMove :: "nat \<Rightarrow> GameState \<Rightarrow> GameState option" where
  "makeMove index s =
     (if (index < length (board s) \<and> board s ! index \<noteq> None) \<or> winner s \<noteq> None then Some s
      else if length (board s) \<le> index then None
      else
        let newBoard = (board s)[index := currentPlayer s];
            (w, wl) = checkWinner newBoard
        in Some (s\<lparr>board := newBoard,
                    currentPlayer := (if currentPlayer s = Some PlayerX then Some PlayerO else Some PlayerX),
                    winner := w,
                    winningLine := wl,
                    scores := (case w of None \<Rightarrow> scores s | Some r \<Rightarrow> bumpScore r (scores s))\<rparr>))"


section \<open>Notions used in the statements\<close>

text \<open>The number of empty cells of a board: the fuel that a search of it needs.\<close>

definition emptyCells :: "Player list \<Rightarrow> nat" where
  "emptyCells b = length (filter (\<lambda>cell. cell = None) b)"

text \<open>
  The values that a search started at depth \<open>d\<close> on a board with \<open>K\<close> empty cells can
  return: 0 for a tie, \<open>10 - d'\<close> or \<open>d' - 10\<close> for a win found at a depth \<open>d'\<close> between
  \<open>d\<close> and \<open>d + K\<close>.
\<close>

definition scoreRange :: "int \<Rightarrow> nat \<Rightarrow> int \<Rightarrow> bool" where
  "scoreRange d K v =
     (v = 0 \<or> (d \<le> 10 - v \<and> 10 - v \<le> d + int K) \<or> (d \<le> v + 10 \<and> v + 10 \<le> d + int K))"

text \<open>The three cells of a combination all hold the same mark.\<close>

definition lineWon :: "Player list \<Rightarrow> line \<Rightarrow> bool" where
  "lineWon b l = (case l of (i, j, k) \<Rightarrow> b ! i \<noteq> None \<and> b ! i = b ! j \<and> b ! i = b ! k)"

text \<open>
  The outcome evaluator as the specification words it: the first combination of the table
  that is won decides, then fullness, then "in progress".
\<close>

definition evaluate_spec :: "Player list \<Rightarrow> result option \<times> line option" where
  "evaluate_spec b =
     (case find (lineWon b) winningCombinations of
        Some (i, j, k) \<Rightarrow> (map_option Won (b ! i), Some (i, j, k))
      | None \<Rightarrow>
          if list_all (\<lambda>cell. cell \<noteq> None) b then (Some tie, None)
          else (None, None))"

text \<open>
  The score of a root candidate: what \<open>minimax(board, 0, false)\<close> returns on the board
  with the computer's mark written into cell \<open>m\<close> (\<open>-Infinity\<close> stands in when the fuel
  does not suffice, which the theorems exclude).
\<close>

definition rootScore :: "nat \<Rightarrow> Player list \<Rightarrow> nat \<Rightarrow> jsnum" where
  "rootScore fuel b m =
     (case minimax fuel (b[m := Some PlayerO]) 0 False NegInf PosInf of
        None \<Rightarrow> NegInf
      | Some (v, b') \<Rightarrow> v)"

text \<open>The best-move loop without the board: which candidate it keeps.\<close>

fun pickBest :: "(nat \<Rightarrow> jsnum) \<Rightarrow> nat list \<Rightarrow> nat option \<Rightarrow> jsnum \<Rightarrow> nat option" where
  "pickBest f [] bestMove bestValue = bestMove"
| "pickBest f (m # ms) bestMove bestValue =
     (if f m > bestValue then pickBest f ms (Some m) (f m) else pickBest f ms bestMove bestValue)"

text \<open>
  The optimal-play path of \<open>getBestMove\<close> is taken at Hard difficulty, and at the other
  two when the first random draw is not below the threshold.
\<close>

definition optimalPath :: "Difficulty \<Rightarrow> real \<Rightarrow> bool" where
  "optimalPath d r1 = (\<not> (d = easy \<and> r1 < 7 / 10) \<and> \<not> (d = medium \<and> r1 < 3 / 10))"


text \<open>
  The same game as a search over boards: \<open>humanTurnSafe n b\<close> holds when X has not won on
  \<open>b\<close> and, whatever empty cell the human takes, \<open>computerTurnSafe\<close> holds of the board that
  results; \<open>computerTurnSafe n b\<close> holds when X has not won on \<open>b\<close> and \<open>humanTurnSafe\<close>
  holds after the computer's answer. \<open>n\<close> bounds the number of rounds.
\<close>

fun humanTurnSafe :: "nat \<Rightarrow> Player list \<Rightarrow> bool"
and computerTurnSafe :: "nat \<Rightarrow> Player list \<Rightarrow> bool" where
  "humanTurnSafe 0 b = False"
| "humanTurnSafe (Suc n) b =
     (case fst (checkWinner b) of
        Some r \<Rightarrow> r \<noteq> Won PlayerX
      | None \<Rightarrow> list_all (\<lambda>i. computerTurnSafe n (b[i := Some PlayerX])) (getAvailableMoves b))"
| "computerTurnSafe n b =
     (case fst (checkWinner b) of
        Some r \<Rightarrow> r \<noteq> Won PlayerX
      | None \<Rightarrow>
          (case getBestMove 9 b hard 0 0 of
             Some (Some k, b') \<Rightarrow> humanTurnSafe n (b[k := Some PlayerO])
           | _ \<Rightarrow> False))"

declare humanTurnSafe.simps [simp del] computerTurnSafe.simps [simp del]

subsection \<open>Auxiliary functions for evaluating the search on a nine-cell board\<close>

definition line3 :: "Player \<Rightarrow> Player \<Rightarrow> Player \<Rightarrow> bool" where
  "line3 x y z = (x \<noteq> None \<and> y = x \<and> z = x)"

definition emp :: "Player \<Rightarrow> nat \<Rightarrow> nat list \<Rightarrow> nat list" where
  "emp c i r = (if c = None then i # r else r)"

fun availFrom :: "nat \<Rightarrow> Player list \<Rightarrow> nat list" where
  "availFrom n [] = []"
| "availFrom n (c # cs) = (if c = None then n # availFrom (Suc n) cs else availFrom (Suc n) cs)"

section \<open>Empty cells and available moves\<close>

lemma availFrom_shift:
  "map nat (filter (\<lambda>index. index \<noteq> -1)
       (map (\<lambda>(cell, index). if cell = None then int index else -1)
         (zip cs [n ..< n + length cs]))) = availFrom n cs"
proof (induction cs arbitrary: n)
  case Nil
  show ?case by simp
next
  case (Cons c cs)
  have "[n ..< n + length (c # cs)] = n # [Suc n ..< Suc n + length cs]"
    by (simp add: upt_rec)
  then show ?case using Cons.IH [of "Suc n"] by simp
qed

lemma getAvailableMoves_availFrom: "getAvailableMoves b = availFrom 0 b"
  using availFrom_shift [of b 0] by (simp add: getAvailableMoves_def)

lemma set_availFrom: "set (availFrom n b) = {n + i | i. i < length b \<and> b ! i = None}"
proof (induction b arbitrary: n)
  case Nil
  show ?case by simp
next
  case (Cons c cs)
  have split: "{n + i | i. i < length (c # cs) \<and> (c # cs) ! i = None}
      = (if c = None then {n} else {}) \<union> {Suc n + i | i. i < length cs \<and> cs ! i = None}"
  proof (rule set_eqI)
    fix x
    show "x \<in> {n + i | i. i < length (c # cs) \<and> (c # cs) ! i = None}
       \<longleftrightarrow> x \<in> (if c = None then {n} else {}) \<union> {Suc n + i | i. i < length cs \<and> cs ! i = None}"
    proof
      assume "x \<in> {n + i | i. i < length (c # cs) \<and> (c # cs) ! i = None}"
      then obtain i where i: "x = n + i" "i < length (c # cs)" "(c # cs) ! i = None" by blast
      show "x \<in> (if c = None then {n} else {}) \<union> {Suc n + i | i. i < length cs \<and> cs ! i = None}"
      proof (cases i)
        case 0
        with i show ?thesis by simp
      next
        case (Suc j)
        with i have "x = Suc n + j" "j < length cs" "cs ! j = None" by simp_all
        then show ?thesis by blast
      qed
    next
      assume "x \<in> (if c = None then {n} else {}) \<union> {Suc n + i | i. i < length cs \<and> cs ! i = None}"
      then consider "c = None" "x = n" | j where "x = Suc n + j" "j < length cs" "cs ! j = None"
        by (auto split: if_splits)
      then show "x \<in> {n + i | i. i < length (c # cs) \<and> (c # cs) ! i = None}"
      proof cases
        case 1
        then have "x = n + 0 \<and> 0 < length (c # cs) \<and> (c # cs) ! 0 = None" by simp
        then show ?thesis by blast
      next
        case 2
        then have "x = n + Suc j \<and> Suc j < length (c # cs) \<and> (c # cs) ! Suc j = None" by simp
        then show ?thesis by blast
      qed
    qed
  qed
  show ?case unfolding split using Cons.IH [of "Suc n"] by auto
qed

lemma set_getAvailableMoves:
  "set (getAvailableMoves b) = {i. i < length b \<and> b ! i = None}"
  by (simp add: getAvailableMoves_availFrom set_availFrom)

lemma availFrom_lower: "m \<in> set (availFrom n b) \<Longrightarrow> n \<le> m"
  by (auto simp: set_availFrom)

lemma sorted_availFrom: "sorted_wrt (<) (availFrom n b)"
proof (induction b arbitrary: n)
  case Nil
  show ?case by simp
next
  case (Cons c cs)
  have "\<forall>m \<in> set (availFrom (Suc n) cs). n < m"
    by (auto dest: availFrom_lower)
  with Cons.IH [of "Suc n"] show ?case by simp
qed

lemma sorted_getAvailableMoves: "sorted_wrt (<) (getAvailableMoves b)"
  by (simp add: getAvailableMoves_availFrom sorted_availFrom)

lemma emptyCells_update:
  "m < length b \<Longrightarrow> b ! m = None \<Longrightarrow> Suc (emptyCells (b[m := Some p])) = emptyCells b"
proof (induction b arbitrary: m)
  case Nil
  then show ?case by simp
next
  case (Cons c cs)
  show ?case
  proof (cases m)
    case 0
    with Cons.prems show ?thesis by (simp add: emptyCells_def)
  next
    case (Suc j)
    with Cons.prems have "Suc (emptyCells (cs[j := Some p])) = emptyCells cs"
      using Cons.IH [of j] by simp
    with Suc show ?thesis by (simp add: emptyCells_def)
  qed
qed

lemma restore_cell: "m < length b \<Longrightarrow> b ! m = None \<Longrightarrow> (b[m := x])[m := None] = b"
  by (simp add: list_update_same_conv)

lemma in_progress_has_move:
  assumes "fst (checkWinner b) = None"
  shows "getAvailableMoves b \<noteq> []"
proof -
  from assms have "\<not> list_all (\<lambda>cell. cell \<noteq> None) b"
    by (auto simp: checkWinner_def split: option.splits if_splits)
  then obtain c where "c \<in> set b" "c = None"
    by (auto simp: list_all_iff)
  then obtain i where "i < length b" "b ! i = None"
    by (auto simp: in_set_conv_nth)
  then have "i \<in> set (getAvailableMoves b)"
    by (simp add: set_getAvailableMoves)
  then show ?thesis by auto
qed

section \<open>The search returns, restores the board and stays in range\<close>

lemma scoreRange_win: "scoreRange d K (10 - d)"
  by (simp add: scoreRange_def)

lemma scoreRange_loss: "scoreRange d K (d - 10)"
  by (simp add: scoreRange_def)

lemma scoreRange_tie: "scoreRange d K 0"
  by (simp add: scoreRange_def)

lemma scoreRange_deeper: "scoreRange (d + 1) K v \<Longrightarrow> scoreRange d (Suc K) v"
  by (auto simp: scoreRange_def)

lemma scoreRange_max: "scoreRange d K a \<Longrightarrow> scoreRange d K v \<Longrightarrow> scoreRange d K (max a v)"
  by (simp add: max_def)

lemma scoreRange_min: "scoreRange d K a \<Longrightarrow> scoreRange d K v \<Longrightarrow> scoreRange d K (min a v)"
  by (simp add: min_def)

lemma max_Fin: "max (Fin a) (Fin v) = Fin (max a v)"
  by (simp add: max_def)

lemma min_Fin: "min (Fin a) (Fin v) = Fin (min a v)"
  by (simp add: min_def)

lemma max_NegInf: "max NegInf x = x"
  by (cases x) (simp_all add: max_def)

lemma min_PosInf: "min PosInf x = x"
  by (cases x) (simp_all add: min_def)

lemma maxLoop_result:
  assumes rec: "\<And>m a. m \<in> set ms \<Longrightarrow>
            \<exists>v. minimax f (b[m := Some PlayerO]) (d + 1) False a beta
                  = Some (Fin v, b[m := Some PlayerO]) \<and> scoreRange d K v"
      and free: "\<And>m. m \<in> set ms \<Longrightarrow> m < length b \<and> b ! m = None"
      and acc: "acc = NegInf \<or> (\<exists>a. acc = Fin a \<and> scoreRange d K a)"
  shows "\<exists>e. maxLoop (Suc f) ms b d alpha beta acc = Some (e, b)
            \<and> ((ms = [] \<and> e = acc) \<or> (\<exists>v. e = Fin v \<and> scoreRange d K v))"
  using rec free acc
proof (induction ms arbitrary: alpha acc)
  case Nil
  show ?case by simp
next
  case (Cons m ms)
  from Cons.prems(1) [of m alpha] obtain v where
    v: "minimax f (b[m := Some PlayerO]) (d + 1) False alpha beta = Some (Fin v, b[m := Some PlayerO])"
       "scoreRange d K v"
    by auto
  from Cons.prems(2) [of m] have restored: "(b[m := Some PlayerO])[m := None] = b"
    by (auto simp: list_update_same_conv)
  from Cons.prems(3) v(2) obtain a where a: "max acc (Fin v) = Fin a" "scoreRange d K a"
    by (auto simp: max_NegInf max_Fin scoreRange_max)
  show ?case
  proof (cases "beta \<le> max alpha (Fin v)")
    case True
    with v restored a show ?thesis by simp
  next
    case False
    have "\<exists>e. maxLoop (Suc f) ms b d (max alpha (Fin v)) beta (Fin a) = Some (e, b)
            \<and> ((ms = [] \<and> e = Fin a) \<or> (\<exists>v. e = Fin v \<and> scoreRange d K v))"
      using Cons.prems(1,2) a(2) by (intro Cons.IH) auto
    with False v restored a show ?thesis by auto
  qed
qed

lemma minLoop_result:
  assumes rec: "\<And>m c. m \<in> set ms \<Longrightarrow>
            \<exists>v. minimax f (b[m := Some PlayerX]) (d + 1) True alpha c
                  = Some (Fin v, b[m := Some PlayerX]) \<and> scoreRange d K v"
      and free: "\<And>m. m \<in> set ms \<Longrightarrow> m < length b \<and> b ! m = None"
      and acc: "acc = PosInf \<or> (\<exists>a. acc = Fin a \<and> scoreRange d K a)"
  shows "\<exists>e. minLoop (Suc f) ms b d alpha beta acc = Some (e, b)
            \<and> ((ms = [] \<and> e = acc) \<or> (\<exists>v. e = Fin v \<and> scoreRange d K v))"
  using rec free acc
proof (induction ms arbitrary: beta acc)
  case Nil
  show ?case by simp
next
  case (Cons m ms)
  from Cons.prems(1) [of m beta] obtain v where
    v: "minimax f (b[m := Some PlayerX]) (d + 1) True alpha beta = Some (Fin v, b[m := Some PlayerX])"
       "scoreRange d K v"
    by auto
  from Cons.prems(2) [of m] have restored: "(b[m := Some PlayerX])[m := None] = b"
    by (auto simp: list_update_same_conv)
  from Cons.prems(3) v(2) obtain a where a: "min acc (Fin v) = Fin a" "scoreRange d K a"
    by (auto simp: min_PosInf min_Fin scoreRange_min)
  show ?case
  proof (cases "min beta (Fin v) \<le> alpha")
    case True
    with v restored a show ?thesis by simp
  next
    case False
    have "\<exists>e. minLoop (Suc f) ms b d alpha (min beta (Fin v)) (Fin a) = Some (e, b)
            \<and> ((ms = [] \<and> e = Fin a) \<or> (\<exists>v. e = Fin v \<and> scoreRange d K v))"
      using Cons.prems(1,2) a(2) by (intro Cons.IH) auto
    with False v restored a show ?thesis by auto
  qed
qed


lemma minimax_result:
  "emptyCells b \<le> fuel \<Longrightarrow>
     \<exists>v. minimax fuel b d t alpha beta = Some (Fin v, b) \<and> scoreRange d (emptyCells b) v"
proof (induction fuel arbitrary: b d t alpha beta)
  case 0
  then have "filter (\<lambda>cell. cell = None) b = []"
    by (simp add: emptyCells_def)
  then have full: "\<forall>c \<in> set b. c \<noteq> None"
    by (simp add: filter_empty_conv)
  have "set (getAvailableMoves b) = {}"
  proof (rule ccontr)
    assume "set (getAvailableMoves b) \<noteq> {}"
    then obtain i where i: "i < length b" "b ! i = None"
      by (auto simp: set_getAvailableMoves)
    from i(1) have "b ! i \<in> set b" by (rule nth_mem)
    with i(2) full show False by auto
  qed
  then have "getAvailableMoves b = []"
    by simp
  then have "fst (checkWinner b) \<noteq> None"
    using in_progress_has_move by blast
  then obtain r where r: "fst (checkWinner b) = Some r" by auto
  show ?case
  proof (cases r)
    case (Won p)
    with r show ?thesis
      by (cases p) (simp_all add: minimax.simps scoreRange_win scoreRange_loss)
  next
    case tie
    with r show ?thesis by (simp add: minimax.simps scoreRange_tie)
  qed
next
  case (Suc f)
  show ?case
  proof (cases "fst (checkWinner b)")
    case (Some r)
    show ?thesis
    proof (cases r)
      case (Won p)
      with Some show ?thesis
        by (cases p) (simp_all add: minimax.simps scoreRange_win scoreRange_loss)
    next
      case tie
      with Some show ?thesis by (simp add: minimax.simps scoreRange_tie)
    qed
  next
    case None
    have free: "\<And>m. m \<in> set (getAvailableMoves b) \<Longrightarrow> m < length b \<and> b ! m = None"
      by (simp add: set_getAvailableMoves)
    have moves: "getAvailableMoves b \<noteq> []"
      using None by (rule in_progress_has_move)
    have deeper: "\<exists>v. minimax f (b[m := Some p]) (d + 1) t' a c = Some (Fin v, b[m := Some p])
                    \<and> scoreRange d (emptyCells b) v"
      if "m \<in> set (getAvailableMoves b)" for m p t' a c
    proof -
      from that free have m: "m < length b" "b ! m = None" by auto
      then have cells: "Suc (emptyCells (b[m := Some p])) = emptyCells b"
        by (rule emptyCells_update)
      with Suc.prems have "emptyCells (b[m := Some p]) \<le> f" by simp
      from Suc.IH [OF this, of "d + 1" t' a c] obtain v where
        "minimax f (b[m := Some p]) (d + 1) t' a c = Some (Fin v, b[m := Some p])"
        "scoreRange (d + 1) (emptyCells (b[m := Some p])) v"
        by auto
      with cells show ?thesis
        using scoreRange_deeper [of d "emptyCells (b[m := Some p])" v] by auto
    qed
    show ?thesis
    proof (cases t)
      case True
      have "\<exists>e. maxLoop (Suc f) (getAvailableMoves b) b d alpha beta NegInf = Some (e, b)
              \<and> ((getAvailableMoves b = [] \<and> e = NegInf)
                  \<or> (\<exists>v. e = Fin v \<and> scoreRange d (emptyCells b) v))"
      proof (rule maxLoop_result)
        fix m a
        assume "m \<in> set (getAvailableMoves b)"
        then show "\<exists>v. minimax f (b[m := Some PlayerO]) (d + 1) False a beta
                       = Some (Fin v, b[m := Some PlayerO]) \<and> scoreRange d (emptyCells b) v"
          by (rule deeper)
      next
        fix m
        assume "m \<in> set (getAvailableMoves b)"
        then show "m < length b \<and> b ! m = None"
          by (rule free)
      next
        show "NegInf = NegInf \<or> (\<exists>a. NegInf = Fin a \<and> scoreRange d (emptyCells b) a)"
          by simp
      qed
      with moves None True show ?thesis by (auto simp: minimax.simps)
    next
      case False
      have "\<exists>e. minLoop (Suc f) (getAvailableMoves b) b d alpha beta PosInf = Some (e, b)
              \<and> ((getAvailableMoves b = [] \<and> e = PosInf)
                  \<or> (\<exists>v. e = Fin v \<and> scoreRange d (emptyCells b) v))"
      proof (rule minLoop_result)
        fix m c
        assume "m \<in> set (getAvailableMoves b)"
        then show "\<exists>v. minimax f (b[m := Some PlayerX]) (d + 1) True alpha c
                       = Some (Fin v, b[m := Some PlayerX]) \<and> scoreRange d (emptyCells b) v"
          by (rule deeper)
      next
        fix m
        assume "m \<in> set (getAvailableMoves b)"
        then show "m < length b \<and> b ! m = None"
          by (rule free)
      next
        show "PosInf = PosInf \<or> (\<exists>a. PosInf = Fin a \<and> scoreRange d (emptyCells b) a)"
          by simp
      qed
      with moves None False show ?thesis by (auto simp: minimax.simps)
    qed
  qed
qed

section \<open>More fuel changes nothing\<close>

lemma maxLoop_more_fuel:
  assumes rec: "\<And>b d t a c r. minimax f b d t a c = Some r \<Longrightarrow> minimax (Suc f) b d t a c = Some r"
  shows "maxLoop (Suc f) ms b d alpha beta acc = Some r
           \<Longrightarrow> maxLoop (Suc (Suc f)) ms b d alpha beta acc = Some r"
proof (induction ms arbitrary: b alpha acc)
  case Nil
  then show ?case by simp
next
  case (Cons m ms)
  from Cons.prems obtain e b1 where
    call: "minimax f (b[m := Some PlayerO]) (d + 1) False alpha beta = Some (e, b1)"
    by (auto split: option.splits)
  then have call': "minimax (Suc f) (b[m := Some PlayerO]) (d + 1) False alpha beta = Some (e, b1)"
    by (rule rec)
  show ?case
  proof (cases "beta \<le> max alpha e")
    case True
    with Cons.prems call call' show ?thesis by simp
  next
    case False
    with Cons.prems call have
      "maxLoop (Suc f) ms (b1[m := None]) d (max alpha e) beta (max acc e) = Some r"
      by simp
    then have "maxLoop (Suc (Suc f)) ms (b1[m := None]) d (max alpha e) beta (max acc e) = Some r"
      by (rule Cons.IH)
    with False call' show ?thesis by simp
  qed
qed

lemma minLoop_more_fuel:
  assumes rec: "\<And>b d t a c r. minimax f b d t a c = Some r \<Longrightarrow> minimax (Suc f) b d t a c = Some r"
  shows "minLoop (Suc f) ms b d alpha beta acc = Some r
           \<Longrightarrow> minLoop (Suc (Suc f)) ms b d alpha beta acc = Some r"
proof (induction ms arbitrary: b beta acc)
  case Nil
  then show ?case by simp
next
  case (Cons m ms)
  from Cons.prems obtain e b1 where
    call: "minimax f (b[m := Some PlayerX]) (d + 1) True alpha beta = Some (e, b1)"
    by (auto split: option.splits)
  then have call': "minimax (Suc f) (b[m := Some PlayerX]) (d + 1) True alpha beta = Some (e, b1)"
    by (rule rec)
  show ?case
  proof (cases "min beta e \<le> alpha")
    case True
    with Cons.prems call call' show ?thesis by simp
  next
    case False
    with Cons.prems call have
      "minLoop (Suc f) ms (b1[m := None]) d alpha (min beta e) (min acc e) = Some r"
      by simp
    then have "minLoop (Suc (Suc f)) ms (b1[m := None]) d alpha (min beta e) (min acc e) = Some r"
      by (rule Cons.IH)
    with False call' show ?thesis by simp
  qed
qed

lemma loop_no_fuel:
  "maxLoop 0 ms b d alpha beta acc = Some r \<Longrightarrow> maxLoop (Suc 0) ms b d alpha beta acc = Some r"
  "minLoop 0 ms b d alpha beta acc = Some r \<Longrightarrow> minLoop (Suc 0) ms b d alpha beta acc = Some r"
  by (cases ms; simp)+

lemma minimax_Suc_fuel:
  "minimax fuel b d t alpha beta = Some r \<Longrightarrow> minimax (Suc fuel) b d t alpha beta = Some r"
proof (induction fuel arbitrary: b d t alpha beta r)
  case 0
  then show ?case
    by (auto simp: minimax.simps(1) loop_no_fuel
             split: option.splits result.splits mark.splits if_splits)
next
  case (Suc f)
  have up: "maxLoop (Suc f) ms b' d' a c acc = Some r' \<Longrightarrow> maxLoop (Suc (Suc f)) ms b' d' a c acc = Some r'"
    for ms b' d' a c acc r'
    using Suc.IH by (rule maxLoop_more_fuel)
  have down: "minLoop (Suc f) ms b' d' a c acc = Some r' \<Longrightarrow> minLoop (Suc (Suc f)) ms b' d' a c acc = Some r'"
    for ms b' d' a c acc r'
    using Suc.IH by (rule minLoop_more_fuel)
  from Suc.prems show ?case
    by (auto simp: minimax.simps(1) up down
             split: option.splits result.splits mark.splits if_splits)
qed

lemma minimax_more_fuel:
  "minimax fuel b d t alpha beta = Some r \<Longrightarrow> minimax (fuel + k) b d t alpha beta = Some r"
  by (induction k) (simp_all add: minimax_Suc_fuel)

lemma bestLoop_more_fuel:
  "bestLoop fuel ms b bm bv = Some r \<Longrightarrow> bestLoop (fuel + k) ms b bm bv = Some r"
proof (induction ms arbitrary: b bm bv)
  case Nil
  then show ?case by simp
next
  case (Cons m ms)
  from Cons.prems obtain e b1 where
    call: "minimax fuel (b[m := Some PlayerO]) 0 False NegInf PosInf = Some (e, b1)"
    by (auto split: option.splits)
  then have call': "minimax (fuel + k) (b[m := Some PlayerO]) 0 False NegInf PosInf = Some (e, b1)"
    by (rule minimax_more_fuel)
  show ?case
  proof (cases "bv < e")
    case True
    with Cons.prems call have "bestLoop fuel ms (b1[m := None]) (Some m) e = Some r" by simp
    then have "bestLoop (fuel + k) ms (b1[m := None]) (Some m) e = Some r" by (rule Cons.IH)
    with True call' show ?thesis by simp
  next
    case False
    with Cons.prems call have "bestLoop fuel ms (b1[m := None]) bm bv = Some r" by simp
    then have "bestLoop (fuel + k) ms (b1[m := None]) bm bv = Some r" by (rule Cons.IH)
    with False call' show ?thesis by simp
  qed
qed

lemma getBestMove_more_fuel:
  "getBestMove fuel b diff r1 r2 = Some r \<Longrightarrow> getBestMove (fuel + k) b diff r1 r2 = Some r"
  by (auto simp: getBestMove_def Let_def bestLoop_more_fuel split: if_splits)

lemma getBestMove_hard: 
  "getBestMove fuel b hard r1 r2 = bestLoop fuel (getAvailableMoves b) b (arrayAt (getAvailableMoves b) 0) NegInf"
  by (simp add: getBestMove_def Let_def)

lemma getBestMove_optimal:
  "optimalPath diff r1 \<Longrightarrow>
     getBestMove fuel b diff r1 r2
       = bestLoop fuel (getAvailableMoves b) b (arrayAt (getAvailableMoves b) 0) NegInf"
  by (auto simp: getBestMove_def optimalPath_def Let_def)

section \<open>The best-move loop\<close>

lemma rootScore_finite:
  assumes "m < length b" "b ! m = None" "emptyCells b \<le> Suc fuel"
  shows "\<exists>v. minimax fuel (b[m := Some PlayerO]) 0 False NegInf PosInf = Some (Fin v, b[m := Some PlayerO])
             \<and> rootScore fuel b m = Fin v"
proof -
  from assms(1,2) have "Suc (emptyCells (b[m := Some PlayerO])) = emptyCells b"
    by (rule emptyCells_update)
  with assms(3) have "emptyCells (b[m := Some PlayerO]) \<le> fuel" by simp
  from minimax_result [OF this, of 0 False NegInf PosInf] show ?thesis
    by (auto simp: rootScore_def)
qed

lemma bestLoop_pure:
  assumes "\<And>m. m \<in> set ms \<Longrightarrow> m < length b \<and> b ! m = None" "emptyCells b \<le> Suc fuel"
  shows "bestLoop fuel ms b bm bv = Some (pickBest (rootScore fuel b) ms bm bv, b)"
  using assms(1)
proof (induction ms arbitrary: bm bv)
  case Nil
  show ?case by simp
next
  case (Cons m ms)
  from Cons.prems [of m] have m: "m < length b" "b ! m = None" by simp_all
  from rootScore_finite [OF m assms(2)] obtain v where
    v: "minimax fuel (b[m := Some PlayerO]) 0 False NegInf PosInf = Some (Fin v, b[m := Some PlayerO])"
       "rootScore fuel b m = Fin v"
    by auto
  from m have restored: "(b[m := Some PlayerO])[m := None] = b"
    by (rule restore_cell)
  have rest: "bestLoop fuel ms b bm' bv' = Some (pickBest (rootScore fuel b) ms bm' bv', b)" for bm' bv'
    using Cons.prems by (intro Cons.IH) auto
  show ?case
    unfolding bestLoop.simps pickBest.simps v option.case prod.case Let_def restored
    by (simp add: rest)
qed

lemma pickBest_from:
  "pickBest f ms (Some m0) (f m0) = Some m \<Longrightarrow>
     (m = m0 \<and> (\<forall>k \<in> set ms. f k \<le> f m0))
     \<or> (\<exists>pre post. ms = pre @ m # post \<and> (\<forall>k \<in> set pre. f k < f m) \<and> f m0 < f m
            \<and> (\<forall>k \<in> set post. f k \<le> f m))"
proof (induction ms arbitrary: m0)
  case Nil
  then show ?case by simp
next
  case (Cons a ms)
  show ?case
  proof (cases "f m0 < f a")
    case True
    with Cons.prems have "pickBest f ms (Some a) (f a) = Some m" by simp
    from Cons.IH [OF this] show ?thesis
    proof
      assume "m = a \<and> (\<forall>k \<in> set ms. f k \<le> f a)"
      with True have "a # ms = [] @ m # ms \<and> (\<forall>k \<in> set []. f k < f m) \<and> f m0 < f m
            \<and> (\<forall>k \<in> set ms. f k \<le> f m)" by simp
      then show ?thesis by blast
    next
      assume "\<exists>pre post. ms = pre @ m # post \<and> (\<forall>k \<in> set pre. f k < f m) \<and> f a < f m
            \<and> (\<forall>k \<in> set post. f k \<le> f m)"
      then obtain pre post where p: "ms = pre @ m # post" "\<forall>k \<in> set pre. f k < f m" "f a < f m"
            "\<forall>k \<in> set post. f k \<le> f m" by blast
      with True have "a # ms = (a # pre) @ m # post \<and> (\<forall>k \<in> set (a # pre). f k < f m) \<and> f m0 < f m
            \<and> (\<forall>k \<in> set post. f k \<le> f m)" by auto
      then show ?thesis by blast
    qed
  next
    case False
    with Cons.prems have "pickBest f ms (Some m0) (f m0) = Some m" by simp
    from Cons.IH [OF this] show ?thesis
    proof
      assume "m = m0 \<and> (\<forall>k \<in> set ms. f k \<le> f m0)"
      with False show ?thesis by auto
    next
      assume "\<exists>pre post. ms = pre @ m # post \<and> (\<forall>k \<in> set pre. f k < f m) \<and> f m0 < f m
            \<and> (\<forall>k \<in> set post. f k \<le> f m)"
      then obtain pre post where p: "ms = pre @ m # post" "\<forall>k \<in> set pre. f k < f m" "f m0 < f m"
            "\<forall>k \<in> set post. f k \<le> f m" by blast
      with False have "a # ms = (a # pre) @ m # post \<and> (\<forall>k \<in> set (a # pre). f k < f m) \<and> f m0 < f m
            \<and> (\<forall>k \<in> set post. f k \<le> f m)" by auto
      then show ?thesis by blast
    qed
  qed
qed

lemma pickBest_total: "\<exists>m. pickBest f ms (Some m0) v = Some m"
  by (induction ms arbitrary: m0 v) auto

lemma pickBest_lowest:
  assumes sorted: "sorted_wrt (<) (m0 # ms)"
      and start: "NegInf < f m0"
  shows "\<exists>m. pickBest f (m0 # ms) (Some m0) NegInf = Some m \<and> m \<in> set (m0 # ms)
           \<and> (\<forall>k \<in> set (m0 # ms). f k \<le> f m \<and> (k < m \<longrightarrow> f k < f m))"
proof -
  obtain m where m: "pickBest f ms (Some m0) (f m0) = Some m"
    using pickBest_total by blast
  from start have first: "pickBest f (m0 # ms) (Some m0) NegInf = pickBest f ms (Some m0) (f m0)"
    by simp
  from pickBest_from [OF m]
  have "m \<in> set (m0 # ms) \<and> (\<forall>k \<in> set (m0 # ms). f k \<le> f m \<and> (k < m \<longrightarrow> f k < f m))"
  proof
    assume a: "m = m0 \<and> (\<forall>k \<in> set ms. f k \<le> f m0)"
    with sorted show ?thesis by auto
  next
    assume "\<exists>pre post. ms = pre @ m # post \<and> (\<forall>k \<in> set pre. f k < f m) \<and> f m0 < f m
            \<and> (\<forall>k \<in> set post. f k \<le> f m)"
    then obtain pre post where p: "ms = pre @ m # post" "\<forall>k \<in> set pre. f k < f m" "f m0 < f m"
            "\<forall>k \<in> set post. f k \<le> f m" by blast
    from sorted p(1) have later: "\<forall>k \<in> set post. m < k"
      by (simp add: sorted_wrt_append)
    show ?thesis
    proof (intro conjI ballI impI)
      show "m \<in> set (m0 # ms)" using p(1) by simp
    next
      fix k assume "k \<in> set (m0 # ms)"
      with p show "f k \<le> f m" by auto
    next
      fix k assume "k \<in> set (m0 # ms)" "k < m"
      with p later show "f k < f m" by auto
    qed
  qed
  with m first show ?thesis by simp
qed

section \<open>The outcome evaluator: first line of the table, then fullness\<close>

lemma checkLines_find:
  "checkLines b ls =
     (case find (lineWon b) ls of
        Some (i, j, k) \<Rightarrow> map_option (\<lambda>m. (m, (i, j, k))) (b ! i)
      | None \<Rightarrow> None)"
proof (induction ls)
  case Nil
  show ?case by simp
next
  case (Cons l ls)
  obtain i j k where l: "l = (i, j, k)" by (cases l) auto
  show ?case
  proof (cases "b ! i")
    case None
    with l Cons.IH show ?thesis by (simp add: lineWon_def)
  next
    case (Some m)
    with l Cons.IH show ?thesis by (auto simp: lineWon_def)
  qed
qed

lemma find_lineWon_mark:
  "find (lineWon b) ls = Some (i, j, k) \<Longrightarrow> \<exists>m. b ! i = Some m"
  by (auto simp: find_Some_iff lineWon_def)

lemma checkWinner_evaluate_spec: "checkWinner b = evaluate_spec b"
proof (cases "find (lineWon b) winningCombinations")
  case None
  then show ?thesis
    by (simp add: checkWinner_def evaluate_spec_def checkLines_find)
next
  case (Some l)
  obtain i j k where l: "l = (i, j, k)" by (cases l) auto
  with Some obtain m where "b ! i = Some m"
    using find_lineWon_mark by blast
  with Some l show ?thesis
    by (simp add: checkWinner_def evaluate_spec_def checkLines_find)
qed

text \<open>
  C6. For every nine-cell board \<open>checkWinner\<close> is the evaluator of the specification: it
  returns the win of the first combination of the table, in table order, whose three
  cells hold one and the same mark, else a tie when no cell is empty, else "in progress"
  (\<open>null\<close>). The lines are looked at before fullness: a full board with a completed line
  is a win.
\<close>

theorem checkWinner_first_line_then_tie:
  assumes "length b = 9"
  shows "checkWinner b = evaluate_spec b
         \<and> (list_all (\<lambda>cell. cell \<noteq> None) b \<and> list_ex (lineWon b) winningCombinations
              \<longrightarrow> (\<exists>m l. checkWinner b = (Some (Won m), Some l)))"
proof (intro conjI impI)
  show "checkWinner b = evaluate_spec b"
    by (rule checkWinner_evaluate_spec)
next
  assume "list_all (\<lambda>cell. cell \<noteq> None) b \<and> list_ex (lineWon b) winningCombinations"
  then have "find (lineWon b) winningCombinations \<noteq> None"
    by (auto simp: find_None_iff list_ex_iff)
  then obtain l where found: "find (lineWon b) winningCombinations = Some l" by auto
  obtain i j k where l: "l = (i, j, k)" by (cases l) auto
  with found obtain m where "b ! i = Some m"
    using find_lineWon_mark by blast
  with found l have "checkWinner b = (Some (Won m), Some l)"
    by (simp add: checkWinner_def checkLines_find)
  then show "\<exists>m l. checkWinner b = (Some (Won m), Some l)" by blast
qed

theorem checkWinner_first_line_then_tie_witness:
  "length [Some PlayerX, Some PlayerO, Some PlayerO,
           Some PlayerX, Some PlayerO, Some PlayerX,
           Some PlayerX, Some PlayerX, Some PlayerO] = 9
   \<and> checkWinner [Some PlayerX, Some PlayerO, Some PlayerO,
                  Some PlayerX, Some PlayerO, Some PlayerX,
                  Some PlayerX, Some PlayerX, Some PlayerO]
       = (Some (Won PlayerX), Some (0, 3, 6))"
proof -
  let ?b = "[Some PlayerX, Some PlayerO, Some PlayerO,
             Some PlayerX, Some PlayerO, Some PlayerX,
             Some PlayerX, Some PlayerX, Some PlayerO]"
  have len: "length ?b = 9" by simp
  have "evaluate_spec ?b = (Some (Won PlayerX), Some (0, 3, 6))"
    by (simp add: evaluate_spec_def winningCombinations_def lineWon_def)
  with checkWinner_first_line_then_tie [OF len] len show ?thesis by simp
qed

section \<open>Scores of finished boards\<close>




section \<open>Termination, finite values, restored board\<close>




section \<open>Properties of move selection\<close>

lemma getBestMove_restores:
  assumes "emptyCells b \<le> fuel"
  shows "\<exists>m. getBestMove fuel b diff r1 r2 = Some (m, b)"
proof -
  have free: "\<And>m. m \<in> set (getAvailableMoves b) \<Longrightarrow> m < length b \<and> b ! m = None"
    by (simp add: set_getAvailableMoves)
  from assms have "emptyCells b \<le> Suc fuel" by simp
  with free have
    "bestLoop fuel (getAvailableMoves b) b (arrayAt (getAvailableMoves b) 0) NegInf
       = Some (pickBest (rootScore fuel b) (getAvailableMoves b)
                 (arrayAt (getAvailableMoves b) 0) NegInf, b)"
    by (rule bestLoop_pure)
  then show ?thesis
    by (simp add: getBestMove_def Let_def)
qed

text \<open>
  C3. For every nine-cell board, every depth, turn and bounds, every difficulty and every
  pair of random draws: the board that \<open>minimax\<close> and \<open>getBestMove\<close> hand back is the board
  they were given. Every candidate written into the board is taken out again on every
  return path, the pruning ones included.
\<close>

theorem search_restores_board:
  assumes "length b = 9" and "emptyCells b \<le> fuel"
  shows "(\<exists>v. minimax fuel b d t alpha beta = Some (v, b))
         \<and> (\<exists>m. getBestMove fuel b diff r1 r2 = Some (m, b))"
proof
  from minimax_result [OF assms(2), of d t alpha beta]
  show "\<exists>v. minimax fuel b d t alpha beta = Some (v, b)" by blast
next
  from assms(2) show "\<exists>m. getBestMove fuel b diff r1 r2 = Some (m, b)"
    by (rule getBestMove_restores)
qed

theorem search_restores_board_witness:
  "length [Some PlayerX, Some PlayerX, None, Some PlayerO, Some PlayerO, None, None, None, None] = 9
   \<and> emptyCells [Some PlayerX, Some PlayerX, None, Some PlayerO, Some PlayerO, None, None, None, None] \<le> 5
   \<and> (\<exists>v. minimax 5 [Some PlayerX, Some PlayerX, None, Some PlayerO, Some PlayerO, None, None, None, None]
             1 False (Fin (- 3)) (Fin 2)
           = Some (v, [Some PlayerX, Some PlayerX, None, Some PlayerO, Some PlayerO, None, None, None, None]))
   \<and> (\<exists>m. getBestMove 5 [Some PlayerX, Some PlayerX, None, Some PlayerO, Some PlayerO, None, None, None, None]
             medium (1 / 2) 0
           = Some (m, [Some PlayerX, Some PlayerX, None, Some PlayerO, Some PlayerO, None, None, None, None]))"
proof -
  let ?b = "[Some PlayerX, Some PlayerX, None, Some PlayerO, Some PlayerO, None, None, None, None]"
  have len: "length ?b = 9" by simp
  have cells: "emptyCells ?b \<le> 5" by (simp add: emptyCells_def)
  from search_restores_board [OF len cells, of 1 False "Fin (- 3)" "Fin 2" medium "1 / 2" 0] len cells
  show ?thesis by simp
qed

text \<open>
  C4. At Hard difficulty \<open>getBestMove\<close> does not look at the random source: whatever the
  two draws are, the result for a board is the same.
\<close>

theorem getBestMove_hard_ignores_random:
  "getBestMove fuel b hard r1 r2 = getBestMove fuel b hard r1' r2'"
  by (simp add: getBestMove_def Let_def)

text \<open>
  C8. On the optimal-play path the candidates are the empty cells in ascending order, and
  the index returned is the lowest empty cell whose root score is the greatest: no
  candidate scores higher, and every candidate with a lower index scores strictly lower.
\<close>

theorem getBestMove_lowest_best:
  assumes "length b = 9" and "emptyCells b \<le> fuel" and "optimalPath diff r1"
      and "getAvailableMoves b \<noteq> []"
  shows "sorted_wrt (<) (getAvailableMoves b)
         \<and> set (getAvailableMoves b) = {i. i < length b \<and> b ! i = None}
         \<and> (\<exists>m. getBestMove fuel b diff r1 r2 = Some (Some m, b)
                \<and> m \<in> set (getAvailableMoves b)
                \<and> (\<forall>k \<in> set (getAvailableMoves b).
                      rootScore fuel b k \<le> rootScore fuel b m
                      \<and> (k < m \<longrightarrow> rootScore fuel b k < rootScore fuel b m)))"
proof (intro conjI)
  show "sorted_wrt (<) (getAvailableMoves b)"
    by (rule sorted_getAvailableMoves)
  show "set (getAvailableMoves b) = {i. i < length b \<and> b ! i = None}"
    by (rule set_getAvailableMoves)
  from assms(4) obtain m0 ms where moves: "getAvailableMoves b = m0 # ms"
    by (cases "getAvailableMoves b") auto
  have free: "\<And>m. m \<in> set (getAvailableMoves b) \<Longrightarrow> m < length b \<and> b ! m = None"
    by (simp add: set_getAvailableMoves)
  from assms(2) have fuel: "emptyCells b \<le> Suc fuel" by simp
  have first: "arrayAt (m0 # ms) 0 = Some m0"
    by (simp add: arrayAt_def)
  from free [of m0] moves have "m0 < length b" "b ! m0 = None" by simp_all
  from rootScore_finite [OF this fuel] have finite: "NegInf < rootScore fuel b m0"
    by auto
  have sorted: "sorted_wrt (<) (m0 # ms)"
    using sorted_getAvailableMoves [of b] by (simp only: moves)
  from pickBest_lowest [of m0 ms "rootScore fuel b", OF sorted finite] obtain m where
    m: "pickBest (rootScore fuel b) (m0 # ms) (Some m0) NegInf = Some m"
       "m \<in> set (m0 # ms)"
       "\<forall>k \<in> set (m0 # ms). rootScore fuel b k \<le> rootScore fuel b m
                               \<and> (k < m \<longrightarrow> rootScore fuel b k < rootScore fuel b m)"
    by blast
  have "getBestMove fuel b diff r1 r2
          = bestLoop fuel (getAvailableMoves b) b (arrayAt (getAvailableMoves b) 0) NegInf"
    using assms(3) by (rule getBestMove_optimal)
  also have "\<dots> = Some (pickBest (rootScore fuel b) (getAvailableMoves b)
                          (arrayAt (getAvailableMoves b) 0) NegInf, b)"
    using free fuel by (rule bestLoop_pure)
  also have "\<dots> = Some (Some m, b)"
    by (simp only: moves first m(1))
  finally have "getBestMove fuel b diff r1 r2 = Some (Some m, b)" .
  with m(2,3) show "\<exists>m. getBestMove fuel b diff r1 r2 = Some (Some m, b)
                \<and> m \<in> set (getAvailableMoves b)
                \<and> (\<forall>k \<in> set (getAvailableMoves b).
                      rootScore fuel b k \<le> rootScore fuel b m
                      \<and> (k < m \<longrightarrow> rootScore fuel b k < rootScore fuel b m))"
    unfolding moves by blast
qed

lemma availFrom_example:
  "getAvailableMoves [Some PlayerX, Some PlayerO, Some PlayerX,
                      Some PlayerX, Some PlayerO, Some PlayerO,
                      Some PlayerO, None, None] = [7, 8]"
  by (simp add: getAvailableMoves_availFrom)

theorem getBestMove_lowest_best_witness:
  "length [Some PlayerX, Some PlayerO, Some PlayerX,
           Some PlayerX, Some PlayerO, Some PlayerO,
           Some PlayerO, None, None] = 9
   \<and> emptyCells [Some PlayerX, Some PlayerO, Some PlayerX,
                 Some PlayerX, Some PlayerO, Some PlayerO,
                 Some PlayerO, None, None] \<le> 2
   \<and> optimalPath easy (9 / 10)
   \<and> getAvailableMoves [Some PlayerX, Some PlayerO, Some PlayerX,
                        Some PlayerX, Some PlayerO, Some PlayerO,
                        Some PlayerO, None, None] = [7, 8]
   \<and> (\<exists>m. getBestMove 2 [Some PlayerX, Some PlayerO, Some PlayerX,
                          Some PlayerX, Some PlayerO, Some PlayerO,
                          Some PlayerO, None, None] easy (9 / 10) 0
             = Some (Some m, [Some PlayerX, Some PlayerO, Some PlayerX,
                              Some PlayerX, Some PlayerO, Some PlayerO,
                              Some PlayerO, None, None])
          \<and> (m = 7 \<or> m = 8))"
proof -
  let ?b = "[Some PlayerX, Some PlayerO, Some PlayerX,
             Some PlayerX, Some PlayerO, Some PlayerO,
             Some PlayerO, None, None]"
  have len: "length ?b = 9" by simp
  have cells: "emptyCells ?b \<le> 2" by (simp add: emptyCells_def)
  have path: "optimalPath easy (9 / 10)" by (simp add: optimalPath_def)
  have moves: "getAvailableMoves ?b = [7, 8]" by (rule availFrom_example)
  then have some: "getAvailableMoves ?b \<noteq> []" by simp
  from getBestMove_lowest_best [OF len cells path some, of 0] len cells path moves
  show ?thesis by auto
qed

text \<open>
  C2, as the code has it. On a board without an empty cell \<open>getBestMove\<close> raises nothing:
  at every difficulty and for every draw it returns \<open>undefined\<close>, the element 0 of the
  empty array of moves, and the board as it was.
\<close>

theorem getBestMove_no_moves:
  assumes "getAvailableMoves b = []"
  shows "getBestMove fuel b diff r1 r2 = Some (None, b)"
  using assms by (simp add: getBestMove_def Let_def arrayAt_def)

lemma full_board_moves:
  "getAvailableMoves [Some PlayerX, Some PlayerO, Some PlayerX,
                      Some PlayerX, Some PlayerO, Some PlayerO,
                      Some PlayerO, Some PlayerX, Some PlayerX] = []"
  by (simp add: getAvailableMoves_availFrom)

theorem getBestMove_no_moves_witness:
  "getAvailableMoves [Some PlayerX, Some PlayerO, Some PlayerX,
                      Some PlayerX, Some PlayerO, Some PlayerO,
                      Some PlayerO, Some PlayerX, Some PlayerX] = []
   \<and> getBestMove 0 [Some PlayerX, Some PlayerO, Some PlayerX,
                    Some PlayerX, Some PlayerO, Some PlayerO,
                    Some PlayerO, Some PlayerX, Some PlayerX] easy (1 / 2) (1 / 2)
       = Some (None, [Some PlayerX, Some PlayerO, Some PlayerX,
                      Some PlayerX, Some PlayerO, Some PlayerO,
                      Some PlayerO, Some PlayerX, Some PlayerX])"
  using getBestMove_no_moves [OF full_board_moves, of 0 easy "1 / 2" "1 / 2"] full_board_moves
  by simp

text \<open>
  No fault is raised: called at Hard difficulty on a full board, the operation returns
  normally, with \<open>undefined\<close> as the move.
\<close>

theorem getBestMove_full_board_counterexample:
  "getBestMove 0 [Some PlayerX, Some PlayerO, Some PlayerX,
                  Some PlayerX, Some PlayerO, Some PlayerO,
                  Some PlayerO, Some PlayerX, Some PlayerX] hard 0 0
     = Some (None, [Some PlayerX, Some PlayerO, Some PlayerX,
                    Some PlayerX, Some PlayerO, Some PlayerO,
                    Some PlayerO, Some PlayerX, Some PlayerX])"
  by (simp add: getBestMove_def Let_def arrayAt_def getAvailableMoves_availFrom)

section \<open>\<open>makeMove\<close> on a taken cell or a finished game\<close>

text \<open>
  C10. When the cell at the index is taken, or the game has a winner or a tie recorded,
  \<open>makeMove\<close> leaves the whole state as it is: board, current player, winner, winning
  line, scores (and mode and difficulty).
\<close>

theorem makeMove_noop:
  assumes "(index < length (board s) \<and> board s ! index \<noteq> None) \<or> winner s \<noteq> None"
  shows "makeMove index s = Some s"
  using assms by (simp add: makeMove_def)

theorem makeMove_noop_witness:
  "((0 < length (board (initialState\<lparr>board := [Some PlayerX, None, None, None, None, None, None, None, None],
                                     currentPlayer := Some PlayerO\<rparr>))
      \<and> board (initialState\<lparr>board := [Some PlayerX, None, None, None, None, None, None, None, None],
                             currentPlayer := Some PlayerO\<rparr>) ! 0 \<noteq> None)
     \<or> winner (initialState\<lparr>board := [Some PlayerX, None, None, None, None, None, None, None, None],
                             currentPlayer := Some PlayerO\<rparr>) \<noteq> None)
   \<and> makeMove 0 (initialState\<lparr>board := [Some PlayerX, None, None, None, None, None, None, None, None],
                               currentPlayer := Some PlayerO\<rparr>)
       = Some (initialState\<lparr>board := [Some PlayerX, None, None, None, None, None, None, None, None],
                            currentPlayer := Some PlayerO\<rparr>)"
proof -
  let ?s = "initialState\<lparr>board := [Some PlayerX, None, None, None, None, None, None, None, None],
                         currentPlayer := Some PlayerO\<rparr>"
  have taken: "(0 < length (board ?s) \<and> board ?s ! 0 \<noteq> None) \<or> winner ?s \<noteq> None"
    by simp
  from makeMove_noop [OF taken] taken show ?thesis by simp
qed

section \<open>Evaluating the search on a nine-cell board\<close>

text \<open>
  The search of a given board is computed by rewriting. The rules below are the
  definitions specialised to a board written out as nine cells, so that one step of the
  program is one rewrite step.
\<close>

lemma line3_simps:
  "line3 None y z = False"
  "line3 (Some m) None z = False"
  "line3 (Some m) (Some k) None = False"
  "line3 (Some m) (Some k) (Some l) = (k = m \<and> l = m)"
  by (auto simp: line3_def)

lemma winner_step:
  "(case checkLines b ((i, j, k) # rest) of Some (m, l) \<Rightarrow> Some (Won m) | None \<Rightarrow> t) =
     (if line3 (b ! i) (b ! j) (b ! k) then map_option Won (b ! i)
      else (case checkLines b rest of Some (m, l) \<Rightarrow> Some (Won m) | None \<Rightarrow> t))"
  by (cases "b ! i") (auto simp: line3_def)

lemma fst_checkWinner:
  "fst (checkWinner b) =
     (case checkLines b winningCombinations of
        Some (m, l) \<Rightarrow> Some (Won m)
      | None \<Rightarrow> if list_all (\<lambda>cell. cell \<noteq> None) b then Some tie else None)"
  by (simp add: checkWinner_def split: option.split)

lemma nth9:
  "[c0, c1, c2, c3, c4, c5, c6, c7, c8] ! 0 = c0"
  "[c0, c1, c2, c3, c4, c5, c6, c7, c8] ! 1 = c1"
  "[c0, c1, c2, c3, c4, c5, c6, c7, c8] ! 2 = c2"
  "[c0, c1, c2, c3, c4, c5, c6, c7, c8] ! 3 = c3"
  "[c0, c1, c2, c3, c4, c5, c6, c7, c8] ! 4 = c4"
  "[c0, c1, c2, c3, c4, c5, c6, c7, c8] ! 5 = c5"
  "[c0, c1, c2, c3, c4, c5, c6, c7, c8] ! 6 = c6"
  "[c0, c1, c2, c3, c4, c5, c6, c7, c8] ! 7 = c7"
  "[c0, c1, c2, c3, c4, c5, c6, c7, c8] ! 8 = c8"
  by simp_all

lemma winner9:
  "fst (checkWinner [c0, c1, c2, c3, c4, c5, c6, c7, c8]) =
     (if line3 c0 c1 c2 then map_option Won c0
      else if line3 c3 c4 c5 then map_option Won c3
      else if line3 c6 c7 c8 then map_option Won c6
      else if line3 c0 c3 c6 then map_option Won c0
      else if line3 c1 c4 c7 then map_option Won c1
      else if line3 c2 c5 c8 then map_option Won c2
      else if line3 c0 c4 c8 then map_option Won c0
      else if line3 c2 c4 c6 then map_option Won c2
      else if c0 \<noteq> None \<and> c1 \<noteq> None \<and> c2 \<noteq> None \<and> c3 \<noteq> None \<and> c4 \<noteq> None
              \<and> c5 \<noteq> None \<and> c6 \<noteq> None \<and> c7 \<noteq> None \<and> c8 \<noteq> None then Some tie
      else None)"
  unfolding fst_checkWinner winningCombinations_def
  by (simp only: winner_step checkLines.simps(1) option.case nth9 list.pred_inject simp_thms)

lemma availFrom_emp: "availFrom n (c # cs) = emp c n (availFrom (Suc n) cs)"
  by (simp add: emp_def)

lemma emp_simps: "emp None i r = i # r" "emp (Some m) i r = r"
  by (simp_all add: emp_def)

lemma avail9:
  "getAvailableMoves [c0, c1, c2, c3, c4, c5, c6, c7, c8] =
     emp c0 0 (emp c1 1 (emp c2 2 (emp c3 3 (emp c4 4 (emp c5 5 (emp c6 6 (emp c7 7 (emp c8 8 []))))))))"
  by (simp add: getAvailableMoves_availFrom availFrom_emp numeral_eq_Suc del: availFrom.simps(2))

lemma upd9:
  "[c0, c1, c2, c3, c4, c5, c6, c7, c8][0 := v] = [v, c1, c2, c3, c4, c5, c6, c7, c8]"
  "[c0, c1, c2, c3, c4, c5, c6, c7, c8][1 := v] = [c0, v, c2, c3, c4, c5, c6, c7, c8]"
  "[c0, c1, c2, c3, c4, c5, c6, c7, c8][2 := v] = [c0, c1, v, c3, c4, c5, c6, c7, c8]"
  "[c0, c1, c2, c3, c4, c5, c6, c7, c8][3 := v] = [c0, c1, c2, v, c4, c5, c6, c7, c8]"
  "[c0, c1, c2, c3, c4, c5, c6, c7, c8][4 := v] = [c0, c1, c2, c3, v, c5, c6, c7, c8]"
  "[c0, c1, c2, c3, c4, c5, c6, c7, c8][5 := v] = [c0, c1, c2, c3, c4, v, c6, c7, c8]"
  "[c0, c1, c2, c3, c4, c5, c6, c7, c8][6 := v] = [c0, c1, c2, c3, c4, c5, v, c7, c8]"
  "[c0, c1, c2, c3, c4, c5, c6, c7, c8][7 := v] = [c0, c1, c2, c3, c4, c5, c6, v, c8]"
  "[c0, c1, c2, c3, c4, c5, c6, c7, c8][8 := v] = [c0, c1, c2, c3, c4, c5, c6, c7, v]"
  by (simp_all add: numeral_eq_Suc)

lemma maxLoop_step:
  "maxLoop (Suc fuel) (move # moves) b depth alpha beta maxEval =
     (case minimax fuel (b[move := Some PlayerO]) (depth + 1) False alpha beta of
        None \<Rightarrow> None
      | Some (evaluation, board1) \<Rightarrow>
          if beta \<le> max alpha evaluation
          then Some (max maxEval evaluation, board1[move := None])
          else maxLoop (Suc fuel) moves (board1[move := None]) depth
                 (max alpha evaluation) beta (max maxEval evaluation))"
  by (simp only: maxLoop.simps Let_def)

lemma minLoop_step:
  "minLoop (Suc fuel) (move # moves) b depth alpha beta minEval =
     (case minimax fuel (b[move := Some PlayerX]) (depth + 1) True alpha beta of
        None \<Rightarrow> None
      | Some (evaluation, board1) \<Rightarrow>
          if min beta evaluation \<le> alpha
          then Some (min minEval evaluation, board1[move := None])
          else minLoop (Suc fuel) moves (board1[move := None]) depth
                 alpha (min beta evaluation) (min minEval evaluation))"
  by (simp only: minLoop.simps Let_def)

lemma bestLoop_step:
  "bestLoop fuel (move # moves) b bestMove bestValue =
     (case minimax fuel (b[move := Some PlayerO]) 0 False NegInf PosInf of
        None \<Rightarrow> None
      | Some (moveValue, board1) \<Rightarrow>
          if moveValue > bestValue
          then bestLoop fuel moves (board1[move := None]) (Some move) moveValue
          else bestLoop fuel moves (board1[move := None]) bestMove bestValue)"
  by (simp only: bestLoop.simps Let_def)

lemma jsnum_max:
  "max NegInf x = x" "max x NegInf = x" "max PosInf x = PosInf" "max x PosInf = PosInf"
  "max (Fin a) (Fin c) = (if a \<le> c then Fin c else Fin a)"
  by (cases x; simp add: max_def)+

lemma jsnum_min:
  "min NegInf x = NegInf" "min x NegInf = NegInf" "min PosInf x = x" "min x PosInf = x"
  "min (Fin a) (Fin c) = (if a \<le> c then Fin a else Fin c)"
  by (cases x; simp add: min_def)+

lemma arrayAt_first: "arrayAt (m # ms) 0 = Some m" "arrayAt [] 0 = None"
  by (simp_all add: arrayAt_def)

lemma getBestMove_hard9:
  "getBestMove 9 b hard r1 r2 =
     bestLoop (Suc (Suc (Suc (Suc (Suc (Suc (Suc (Suc (Suc 0)))))))))
       (getAvailableMoves b) b (arrayAt (getAvailableMoves b) 0) NegInf"
  by (simp add: getBestMove_hard numeral_eq_Suc)

lemma computerTurnSafe_step:
  "computerTurnSafe n b =
     (case fst (checkWinner b) of
        Some r \<Rightarrow> r \<noteq> Won PlayerX
      | None \<Rightarrow>
          (case getBestMove 9 b hard 0 0 of
             None \<Rightarrow> False
           | Some (None, b') \<Rightarrow> False
           | Some (Some k, b') \<Rightarrow> humanTurnSafe n (b[k := Some PlayerO])))"
  by (simp add: computerTurnSafe.simps split: option.splits prod.splits)

lemmas search_eval =
  winner9 line3_simps avail9 upd9 emp_simps maxLoop_step minLoop_step bestLoop_step
  jsnum_max jsnum_min minimax.simps maxLoop.simps(1) minLoop.simps(1) bestLoop.simps(1)
  arrayAt_first getBestMove_hard9 computerTurnSafe_step humanTurnSafe.simps
  if_True if_False option.case prod.case option.map option.distinct option.inject
  mark.distinct mark.case result.case result.distinct result.inject simp_thms
  less_eq_jsnum.simps less_jsnum.simps arith_simps rel_simps jsnum.distinct jsnum.inject
  numeral_plus_one one_add_one add_0 diff_numeral_simps diff_numeral_special diff_0 diff_0_right
  list.pred_inject

lemmas search_cong =
  if_weak_cong option.case_cong_weak prod.case_cong_weak result.case_cong_weak
  mark.case_cong_weak

section \<open>The scenario of the specification\<close>

lemma getBestMove_hard5:
  "getBestMove 5 b hard r1 r2 =
     bestLoop (Suc (Suc (Suc (Suc (Suc 0)))))
       (getAvailableMoves b) b (arrayAt (getAvailableMoves b) 0) NegInf"
  by (simp add: getBestMove_hard numeral_eq_Suc)

lemma scenario_eval:
  "getBestMove 5 [Some PlayerX, Some PlayerX, None, Some PlayerO, Some PlayerO, None, None, None, None]
     hard r1 r2
     = Some (Some 5, [Some PlayerX, Some PlayerX, None, Some PlayerO, Some PlayerO, None, None, None, None])"
  unfolding getBestMove_hard5
  by (simp only: search_eval cong: search_cong)

text \<open>
  C1, as the code has it. On the board X X - / O O - / - - - with O to move at Hard
  difficulty, \<open>getBestMove\<close> returns cell 5, which completes O's own row 3-4-5 and wins at
  once (root score 10), not cell 2, which only blocks (root score 8).
\<close>

theorem getBestMove_scenario:
  "getBestMove (5 + k) [Some PlayerX, Some PlayerX, None, Some PlayerO, Some PlayerO, None, None, None, None]
     hard r1 r2
     = Some (Some 5, [Some PlayerX, Some PlayerX, None, Some PlayerO, Some PlayerO, None, None, None, None])"
  using scenario_eval by (rule getBestMove_more_fuel)

theorem getBestMove_scenario_counterexample:
  "getBestMove 5 [Some PlayerX, Some PlayerX, None, Some PlayerO, Some PlayerO, None, None, None, None]
     hard 0 0
     \<noteq> Some (Some 2, [Some PlayerX, Some PlayerX, None, Some PlayerO, Some PlayerO, None, None, None, None])"
  by (simp add: scenario_eval)

section \<open>A game at Hard difficulty\<close>























end
